theory Spec2Isabelle
  imports Complex_Main "HOL-Library.Multiset"
begin

section \<open>Universal types\<close>

text \<open>
  The two structs of \<^verbatim>\<open>main.go\<close>. \<^verbatim>\<open>float64\<close> is the type parameter \<open>'f\<close>: the
  program never computes with a latitude or a longitude, it only copies and prints them.
  \<^verbatim>\<open>ComputedStructure\<close> has the four fields of \<^verbatim>\<open>Structure\<close> and \<^verbatim>\<open>SunsetHour\<close>, so
  it is the record extended by that field. Go's \<^verbatim>\<open>int\<close> is modelled by \<open>int\<close>: hours
  are only compared, and the worker counter only counts down from its initial value.
\<close>

record 'f Structure =
  Date :: string
  Lat :: 'f
  Lng :: 'f
  Hour :: int

record 'f ComputedStructure = "'f Structure" +
  SunsetHour :: int

record apiResponse =
  Sunset :: string
  Status :: string

datatype error =
    OpenError
  | DecodeError
  | MakeChanPanic
  | CreateError
  | GetError
  | BodyDecodeError
  | ApiStatusError string
  | TimeParseError

section \<open>Reading the input\<close>


section \<open>The lookup\<close>

text \<open>
  \<^verbatim>\<open>FindSunsetHour\<close>. What the network gives back is chosen by the environment: either
  \<^verbatim>\<open>client.Get\<close> returns an error (a network failure, or the 10 second timeout), or the
  body does not decode into \<^verbatim>\<open>apiResponse\<close>, or it does. \<^verbatim>\<open>time.Parse("3:04:05 PM", s)\<close>
  followed by \<^verbatim>\<open>.Hour()\<close> is the parameter \<open>time_Parse\<close>.
\<close>

datatype http_outcome =
    GetFailed
  | BodyUndecodable
  | Body apiResponse

definition FindSunsetHour :: "(string \<Rightarrow> error + int) \<Rightarrow> http_outcome \<Rightarrow> error + int" where
  "FindSunsetHour time_Parse resp =
     (case resp of
        GetFailed \<Rightarrow> Inl GetError
      | BodyUndecodable \<Rightarrow> Inl BodyDecodeError
      | Body result \<Rightarrow>
          if Status result \<noteq> ''OK'' then Inl (ApiStatusError (Status result))
          else (case time_Parse (Sunset result) of
                  Inl err \<Rightarrow> Inl err
                | Inr hour \<Rightarrow> Inr hour))"

section \<open>The worker\<close>

text \<open>
  The places of \<^verbatim>\<open>InitWorker\<close> at which a worker can be: about to send its request,
  waiting on \<^verbatim>\<open>responseDataChannel\<close>, holding a record on which \<^verbatim>\<open>FindSunsetHour\<close> is
  running, blocked in the send of a match to the result monitor, blocked in the send on
  \<^verbatim>\<open>workerStatusChannel\<close>, returned.
\<close>

datatype 'f worker_pc =
    WRequest
  | WRecv
  | WLookup "'f Structure"
  | WSubmit "'f ComputedStructure"
  | WStatus
  | WExit

text \<open>
  The rest of the loop body once the lookup has returned: an error and a different hour
  both \<^verbatim>\<open>continue\<close>; an equal hour reaches the send of the computed record.
\<close>

definition InitWorker_process ::
  "(string \<Rightarrow> error + int) \<Rightarrow> http_outcome \<Rightarrow> 'f Structure \<Rightarrow> 'f worker_pc" where
  "InitWorker_process time_Parse resp data =
     (case FindSunsetHour time_Parse resp of
        Inl err \<Rightarrow> WRequest
      | Inr sunsetHour \<Rightarrow>
          if sunsetHour \<noteq> Hour data then WRequest
          else WSubmit \<lparr>Date = Date data, Lat = Lat data, Lng = Lng data,
                 Hour = Hour data, SunsetHour = sunsetHour\<rparr>)"

section \<open>The result monitor\<close>

text \<open>
  The comparison closure handed to \<^verbatim>\<open>sort.Slice\<close>, on the elements at the two indices.
\<close>

definition less_Hour :: "'f ComputedStructure \<Rightarrow> 'f ComputedStructure \<Rightarrow> bool" where
  "less_Hour a b \<longleftrightarrow> Hour a < Hour b"

text \<open>
  \<^verbatim>\<open>sort.Slice\<close> is a library function and a parameter \<open>srt\<close> of the model. Its
  documentation promises a permutation of the slice that is ordered by the comparison, and
  says that the sort is not guaranteed to be stable. That promise, for the comparison of
  this program:
\<close>

definition sort_Slice_contract ::
  "(('f ComputedStructure \<Rightarrow> 'f ComputedStructure \<Rightarrow> bool)
      \<Rightarrow> 'f ComputedStructure list \<Rightarrow> 'f ComputedStructure list) \<Rightarrow> bool" where
  "sort_Slice_contract srt \<longleftrightarrow>
     (\<forall>xs. mset (srt less_Hour xs) = mset xs \<and> sorted (map Hour (srt less_Hour xs)))"

text \<open>The case of a received result: append, then sort the whole slice.\<close>

definition InitResultMonitor_result ::
  "(('f ComputedStructure \<Rightarrow> 'f ComputedStructure \<Rightarrow> bool)
      \<Rightarrow> 'f ComputedStructure list \<Rightarrow> 'f ComputedStructure list)
    \<Rightarrow> 'f ComputedStructure list \<Rightarrow> 'f ComputedStructure \<Rightarrow> 'f ComputedStructure list" where
  "InitResultMonitor_result srt data resultData = srt less_Hour (data @ [resultData])"

text \<open>
  Two sorts that keep the promise of \<^verbatim>\<open>sort.Slice\<close>. Both insert the elements one by
  one from the left. The first puts an element behind the elements that are not greater,
  the second in front of the elements that are not smaller.
\<close>

fun insert_behind :: "('a \<Rightarrow> 'a \<Rightarrow> bool) \<Rightarrow> 'a \<Rightarrow> 'a list \<Rightarrow> 'a list" where
  "insert_behind lt x [] = [x]"
| "insert_behind lt x (y # ys) =
     (if lt x y then x # y # ys else y # insert_behind lt x ys)"

definition insertion_sort :: "('a \<Rightarrow> 'a \<Rightarrow> bool) \<Rightarrow> 'a list \<Rightarrow> 'a list" where
  "insertion_sort lt xs = foldl (\<lambda>acc x. insert_behind lt x acc) [] xs"



section \<open>The pipeline as a transition system\<close>

text \<open>
  The main goroutine after \<^verbatim>\<open>ReadJSON\<close>: in the insertion loop with the values still to
  send (with none left it is at the send on \<^verbatim>\<open>noMoreDataChannel\<close>), at the receive of the
  final collection, or holding it.
\<close>

datatype 'f main_pc =
    MInsert "'f Structure list"
  | MRecvFinal
  | MFinal "'f ComputedStructure list"

text \<open>
  \<^verbatim>\<open>InitDataMonitor\<close> is at its \<^verbatim>\<open>select\<close>, or blocked in the send of \<^verbatim>\<open>data[0]\<close> on
  \<^verbatim>\<open>responseDataChannel\<close>, or has returned.
\<close>

datatype dm_pc = DMSelect | DMRespond | DMReturned

text \<open>
  The state of a run. \<open>data\<close> and \<open>noMoreData\<close> are the locals of the data monitor,
  \<open>requestDataChannel\<close> the number of values in the buffer of that channel (they are all
  \<^verbatim>\<open>true\<close>), \<open>responseClosed\<close> whether \<^verbatim>\<open>responseDataChannel\<close> is closed, \<open>rm_data\<close> and
  \<open>workerCount\<close> the locals of the result monitor, \<open>rm_returned\<close> whether it has sent the
  final collection. The other channels are unbuffered: a send and its receive are one step.
  Two fields are histories and steer nothing: \<open>delivered\<close> lists every receive of a record
  by a worker (worker index, record), \<open>lookups\<close> every return of \<^verbatim>\<open>FindSunsetHour\<close>
  (record, result).
\<close>

record 'f pipeline =
  main_pc :: "'f main_pc"
  dm_pc :: dm_pc
  data :: "'f Structure list"
  noMoreData :: bool
  requestDataChannel :: nat
  responseClosed :: bool
  rm_data :: "'f ComputedStructure list"
  workerCount :: int
  rm_returned :: bool
  workers :: "'f worker_pc list"
  delivered :: "(nat \<times> 'f Structure) list"
  lookups :: "('f Structure \<times> (error + int)) list"

text \<open>
  The state after the goroutines are started (lines 70 to 79): \<open>workerCount\<close> workers, all
  at their first request. The request channel has capacity \<open>workerCount\<close>, which is the
  length of \<open>workers\<close> in every state.
\<close>

definition init :: "'f Structure list \<Rightarrow> int \<Rightarrow> 'f pipeline" where
  "init inputData n =
     \<lparr>main_pc = MInsert inputData, dm_pc = DMSelect, data = [], noMoreData = False,
      requestDataChannel = 0, responseClosed = False, rm_data = [], workerCount = n,
      rm_returned = False, workers = replicate (nat n) WRequest, delivered = [],
      lookups = []\<rparr>"


text \<open>
  One step of one goroutine, or of two that meet on an unbuffered channel.
  \<^item> \<open>main_insert\<close>: line 83 with lines 132 to 133.
  \<^item> \<open>main_noMore\<close>: line 85 with lines 142 to 143.
  \<^item> \<open>worker_request\<close>: line 177, a send into the buffer, possible while it has room.
  \<^item> \<open>dm_request_some\<close>, \<open>dm_request_none\<close>: line 135, the request leaves the buffer;
    with data the monitor goes on to the send of line 138, without data it does nothing.
  \<^item> \<open>dm_respond\<close>: lines 138 to 139 with line 178, some waiting worker receives.
  \<^item> \<open>dm_default_close\<close>, \<open>dm_default_spin\<close>: lines 145 to 150; the default case is taken
    when no request is buffered (a sender that has not arrived at its send yet is not
    ready either).
  \<^item> \<open>worker_recv_closed\<close>: lines 178 to 181 on the closed channel, then the worker is at
    line 202.
  \<^item> \<open>worker_lookup\<close>: lines 183 to 199, with any outcome of the request.
  \<^item> \<open>rm_result\<close>: lines 160 to 164 with line 193.
  \<^item> \<open>rm_status\<close>: lines 166 to 167 with line 202.
  \<^item> \<open>rm_final\<close>: line 171 with line 87, once the loop condition of line 158 fails.

  No step is a panic, since the code has none to take: \<^verbatim>\<open>data[0]\<close> is read under the test
  \<^verbatim>\<open>len(data) > 0\<close>, and \<^verbatim>\<open>responseDataChannel\<close> is closed once, by the only goroutine
  that sends on it, which returns at once.
\<close>

inductive step ::
  "(('f ComputedStructure \<Rightarrow> 'f ComputedStructure \<Rightarrow> bool)
      \<Rightarrow> 'f ComputedStructure list \<Rightarrow> 'f ComputedStructure list)
    \<Rightarrow> (string \<Rightarrow> error + int) \<Rightarrow> 'f pipeline \<Rightarrow> 'f pipeline \<Rightarrow> bool"
  for srt :: "('f ComputedStructure \<Rightarrow> 'f ComputedStructure \<Rightarrow> bool)
      \<Rightarrow> 'f ComputedStructure list \<Rightarrow> 'f ComputedStructure list"
  and time_Parse :: "string \<Rightarrow> error + int" where
  main_insert:
    "main_pc s = MInsert (v # vs) \<Longrightarrow> dm_pc s = DMSelect \<Longrightarrow>
     step srt time_Parse s (s\<lparr>main_pc := MInsert vs, data := data s @ [v]\<rparr>)"
| main_noMore:
    "main_pc s = MInsert [] \<Longrightarrow> dm_pc s = DMSelect \<Longrightarrow>
     step srt time_Parse s (s\<lparr>main_pc := MRecvFinal, noMoreData := True\<rparr>)"
| worker_request:
    "i < length (workers s) \<Longrightarrow> workers s ! i = WRequest \<Longrightarrow>
     requestDataChannel s < length (workers s) \<Longrightarrow>
     step srt time_Parse s
       (s\<lparr>requestDataChannel := requestDataChannel s + 1,
          workers := (workers s)[i := WRecv]\<rparr>)"
| dm_request_some:
    "dm_pc s = DMSelect \<Longrightarrow> 0 < requestDataChannel s \<Longrightarrow> data s \<noteq> [] \<Longrightarrow>
     step srt time_Parse s
       (s\<lparr>requestDataChannel := requestDataChannel s - 1, dm_pc := DMRespond\<rparr>)"
| dm_request_none:
    "dm_pc s = DMSelect \<Longrightarrow> 0 < requestDataChannel s \<Longrightarrow> data s = [] \<Longrightarrow>
     step srt time_Parse s (s\<lparr>requestDataChannel := requestDataChannel s - 1\<rparr>)"
| dm_respond:
    "dm_pc s = DMRespond \<Longrightarrow> data s = r # rest \<Longrightarrow>
     i < length (workers s) \<Longrightarrow> workers s ! i = WRecv \<Longrightarrow>
     step srt time_Parse s
       (s\<lparr>dm_pc := DMSelect, data := rest, workers := (workers s)[i := WLookup r],
          delivered := delivered s @ [(i, r)]\<rparr>)"
| dm_default_close:
    "dm_pc s = DMSelect \<Longrightarrow> requestDataChannel s = 0 \<Longrightarrow>
     noMoreData s \<Longrightarrow> data s = [] \<Longrightarrow>
     step srt time_Parse s (s\<lparr>dm_pc := DMReturned, responseClosed := True\<rparr>)"
| dm_default_spin:
    "dm_pc s = DMSelect \<Longrightarrow> requestDataChannel s = 0 \<Longrightarrow>
     \<not> (noMoreData s \<and> data s = []) \<Longrightarrow>
     step srt time_Parse s s"
| worker_recv_closed:
    "i < length (workers s) \<Longrightarrow> workers s ! i = WRecv \<Longrightarrow> responseClosed s \<Longrightarrow>
     step srt time_Parse s (s\<lparr>workers := (workers s)[i := WStatus]\<rparr>)"
| worker_lookup:
    "i < length (workers s) \<Longrightarrow> workers s ! i = WLookup r \<Longrightarrow>
     step srt time_Parse s
       (s\<lparr>workers := (workers s)[i := InitWorker_process time_Parse resp r],
          lookups := lookups s @ [(r, FindSunsetHour time_Parse resp)]\<rparr>)"
| rm_result:
    "i < length (workers s) \<Longrightarrow> workers s ! i = WSubmit c \<Longrightarrow> 0 < workerCount s \<Longrightarrow>
     step srt time_Parse s
       (s\<lparr>rm_data := InitResultMonitor_result srt (rm_data s) c,
          workers := (workers s)[i := WRequest]\<rparr>)"
| rm_status:
    "i < length (workers s) \<Longrightarrow> workers s ! i = WStatus \<Longrightarrow> 0 < workerCount s \<Longrightarrow>
     step srt time_Parse s
       (s\<lparr>workerCount := workerCount s - 1, workers := (workers s)[i := WExit]\<rparr>)"
| rm_final:
    "\<not> 0 < workerCount s \<Longrightarrow> \<not> rm_returned s \<Longrightarrow> main_pc s = MRecvFinal \<Longrightarrow>
     step srt time_Parse s (s\<lparr>main_pc := MFinal (rm_data s), rm_returned := True\<rparr>)"

text \<open>
  The states of the runs of \<^verbatim>\<open>initializePipeline\<close> on an input and a worker count that
  \<^verbatim>\<open>make\<close> accepts.
\<close>

inductive reachable ::
  "(('f ComputedStructure \<Rightarrow> 'f ComputedStructure \<Rightarrow> bool)
      \<Rightarrow> 'f ComputedStructure list \<Rightarrow> 'f ComputedStructure list)
    \<Rightarrow> (string \<Rightarrow> error + int) \<Rightarrow> 'f Structure list \<Rightarrow> int \<Rightarrow> 'f pipeline \<Rightarrow> bool"
  for srt :: "('f ComputedStructure \<Rightarrow> 'f ComputedStructure \<Rightarrow> bool)
      \<Rightarrow> 'f ComputedStructure list \<Rightarrow> 'f ComputedStructure list"
  and time_Parse :: "string \<Rightarrow> error + int"
  and inputData :: "'f Structure list"
  and n :: int where
  start: "0 \<le> n \<Longrightarrow> reachable srt time_Parse inputData n (init inputData n)"
| after: "reachable srt time_Parse inputData n s \<Longrightarrow> step srt time_Parse s s' \<Longrightarrow>
     reachable srt time_Parse inputData n s'"

section \<open>What a state holds\<close>

text \<open>The values that the main goroutine has still to send.\<close>

fun pending :: "'f main_pc \<Rightarrow> 'f Structure list" where
  "pending (MInsert vs) = vs"
| "pending MRecvFinal = []"
| "pending (MFinal d) = []"


fun held_match :: "'f worker_pc \<Rightarrow> 'f ComputedStructure list" where
  "held_match (WSubmit c) = [c]"
| "held_match w = []"

text \<open>
  A worker whose last request has not been answered by a record: it waits for the
  response, or it has been told that there is no more data.
\<close>

fun waiting :: "'f worker_pc \<Rightarrow> bool" where
  "waiting WRecv = True"
| "waiting WStatus = True"
| "waiting WExit = True"
| "waiting w = False"

text \<open>
  The requests that the data monitor can still receive: the buffered ones, and one for
  each worker that is not waiting (it can come back with a request).
\<close>

definition open_requests :: "'f pipeline \<Rightarrow> nat" where
  "open_requests s =
     requestDataChannel s + length (filter (\<lambda>w. \<not> waiting w) (workers s))"

text \<open>
  The matches in a history of lookups: the records whose lookup returned an hour, and
  the requested one.
\<close>

fun matches :: "('f Structure \<times> (error + int)) list \<Rightarrow> 'f ComputedStructure list" where
  "matches [] = []"
| "matches ((r, Inl err) # l) = matches l"
| "matches ((r, Inr sunsetHour) # l) =
     (if sunsetHour = Hour r
      then \<lparr>Date = Date r, Lat = Lat r, Lng = Lng r, Hour = Hour r, SunsetHour = sunsetHour\<rparr>
             # matches l
      else matches l)"

section \<open>Runs under a schedule\<close>

text \<open>
  The same transitions as a function: an action names the step to take (and the worker
  that takes it, and for a lookup what the network gives back), and \<open>fire\<close> returns the
  next state when that step is possible. \<open>run\<close> takes the steps of a schedule one after
  the other. \<open>step\<close> and \<open>fire\<close> are proved to agree, so a schedule that \<open>run\<close> accepts
  is a run of the program.
\<close>

datatype action =
    Do_insert
  | Do_noMore
  | Do_request nat
  | Do_take
  | Do_respond nat
  | Do_default
  | Do_recv_closed nat
  | Do_lookup nat http_outcome
  | Do_result nat
  | Do_status nat
  | Do_final

fun fire ::
  "(('f ComputedStructure \<Rightarrow> 'f ComputedStructure \<Rightarrow> bool)
      \<Rightarrow> 'f ComputedStructure list \<Rightarrow> 'f ComputedStructure list)
    \<Rightarrow> (string \<Rightarrow> error + int) \<Rightarrow> action \<Rightarrow> 'f pipeline \<Rightarrow> 'f pipeline option" where
  "fire srt time_Parse Do_insert s =
     (case main_pc s of
        MInsert (v # vs) \<Rightarrow>
          if dm_pc s = DMSelect then Some (s\<lparr>main_pc := MInsert vs, data := data s @ [v]\<rparr>)
          else None
      | _ \<Rightarrow> None)"
| "fire srt time_Parse Do_noMore s =
     (if main_pc s = MInsert [] \<and> dm_pc s = DMSelect
      then Some (s\<lparr>main_pc := MRecvFinal, noMoreData := True\<rparr>) else None)"
| "fire srt time_Parse (Do_request i) s =
     (if i < length (workers s) \<and> workers s ! i = WRequest
         \<and> requestDataChannel s < length (workers s)
      then Some (s\<lparr>requestDataChannel := requestDataChannel s + 1,
                   workers := (workers s)[i := WRecv]\<rparr>)
      else None)"
| "fire srt time_Parse Do_take s =
     (if dm_pc s = DMSelect \<and> 0 < requestDataChannel s
      then (if data s \<noteq> []
            then Some (s\<lparr>requestDataChannel := requestDataChannel s - 1, dm_pc := DMRespond\<rparr>)
            else Some (s\<lparr>requestDataChannel := requestDataChannel s - 1\<rparr>))
      else None)"
| "fire srt time_Parse (Do_respond i) s =
     (case data s of
        r # rest \<Rightarrow>
          if dm_pc s = DMRespond \<and> i < length (workers s) \<and> workers s ! i = WRecv
          then Some (s\<lparr>dm_pc := DMSelect, data := rest,
                       workers := (workers s)[i := WLookup r],
                       delivered := delivered s @ [(i, r)]\<rparr>)
          else None
      | [] \<Rightarrow> None)"
| "fire srt time_Parse Do_default s =
     (if dm_pc s = DMSelect \<and> requestDataChannel s = 0
      then (if noMoreData s \<and> data s = []
            then Some (s\<lparr>dm_pc := DMReturned, responseClosed := True\<rparr>)
            else Some s)
      else None)"
| "fire srt time_Parse (Do_recv_closed i) s =
     (if i < length (workers s) \<and> workers s ! i = WRecv \<and> responseClosed s
      then Some (s\<lparr>workers := (workers s)[i := WStatus]\<rparr>) else None)"
| "fire srt time_Parse (Do_lookup i resp) s =
     (if i < length (workers s)
      then (case workers s ! i of
              WLookup r \<Rightarrow>
                Some (s\<lparr>workers := (workers s)[i := InitWorker_process time_Parse resp r],
                        lookups := lookups s @ [(r, FindSunsetHour time_Parse resp)]\<rparr>)
            | _ \<Rightarrow> None)
      else None)"
| "fire srt time_Parse (Do_result i) s =
     (if i < length (workers s) \<and> 0 < workerCount s
      then (case workers s ! i of
              WSubmit c \<Rightarrow>
                Some (s\<lparr>rm_data := InitResultMonitor_result srt (rm_data s) c,
                        workers := (workers s)[i := WRequest]\<rparr>)
            | _ \<Rightarrow> None)
      else None)"
| "fire srt time_Parse (Do_status i) s =
     (if i < length (workers s) \<and> workers s ! i = WStatus \<and> 0 < workerCount s
      then Some (s\<lparr>workerCount := workerCount s - 1, workers := (workers s)[i := WExit]\<rparr>)
      else None)"
| "fire srt time_Parse Do_final s =
     (if \<not> 0 < workerCount s \<and> \<not> rm_returned s \<and> main_pc s = MRecvFinal
      then Some (s\<lparr>main_pc := MFinal (rm_data s), rm_returned := True\<rparr>) else None)"

fun run ::
  "(('f ComputedStructure \<Rightarrow> 'f ComputedStructure \<Rightarrow> bool)
      \<Rightarrow> 'f ComputedStructure list \<Rightarrow> 'f ComputedStructure list)
    \<Rightarrow> (string \<Rightarrow> error + int) \<Rightarrow> action list \<Rightarrow> 'f pipeline \<Rightarrow> 'f pipeline option" where
  "run srt time_Parse [] s = Some s"
| "run srt time_Parse (a # as) s =
     (case fire srt time_Parse a s of None \<Rightarrow> None | Some s' \<Rightarrow> run srt time_Parse as s')"

text \<open>
  The state in which every worker has sent its request and waits, no request is buffered,
  the input is closed and the whole input lies in the queue.
\<close>

definition stuck :: "'f Structure list \<Rightarrow> int \<Rightarrow> 'f pipeline" where
  "stuck inputData n =
     \<lparr>main_pc = MRecvFinal, dm_pc = DMSelect, data = inputData, noMoreData = True,
      requestDataChannel = 0, responseClosed = False, rm_data = [], workerCount = n,
      rm_returned = False, workers = replicate (nat n) WRecv, delivered = [],
      lookups = []\<rparr>"

section \<open>The scenario of the specification\<close>

text \<open>
  Scenario A of the specification: one record with the requested hour 19, and a lookup
  that answers with the sunset time 7:14:32 PM. \<open>scenario_Parse\<close> stands for
  \<^verbatim>\<open>time.Parse\<close> on the strings of the examples: that time is hour 19, anything else
  is rejected. \<open>scenario_other\<close> is a second record with the same requested hour.
\<close>

definition scenario_record :: "real Structure" where
  "scenario_record = \<lparr>Date = ''2024-06-01'', Lat = 10, Lng = 20, Hour = 19\<rparr>"


definition scenario_Parse :: "string \<Rightarrow> error + int" where
  "scenario_Parse s = (if s = ''7:14:32 PM'' then Inr 19 else Inl TimeParseError)"

definition scenario_OK :: http_outcome where
  "scenario_OK = Body \<lparr>Sunset = ''7:14:32 PM'', Status = ''OK''\<rparr>"

definition scenario_match :: "real ComputedStructure" where
  "scenario_match = \<lparr>Date = ''2024-06-01'', Lat = 10, Lng = 20, Hour = 19, SunsetHour = 19\<rparr>"

definition scenario_other_match :: "real ComputedStructure" where
  "scenario_other_match =
     \<lparr>Date = ''2024-06-02'', Lat = 10, Lng = 20, Hour = 19, SunsetHour = 19\<rparr>"

text \<open>
  A run of the scenario with one worker and the sort \<open>insertion_sort\<close>: the record is
  inserted, requested, delivered, looked up and submitted; then the input is closed, the
  worker's next request finds the queue empty, the monitor closes the response channel,
  the worker signals that it is done and the final collection is published. The named
  states are the ones after 4, 5, 6, 8, 9, 10, 11, 12 and all 13 steps.
\<close>

definition scenario_schedule :: "action list" where
  "scenario_schedule =
     [Do_insert, Do_request 0, Do_take, Do_respond 0, Do_lookup 0 scenario_OK, Do_result 0,
      Do_noMore, Do_request 0, Do_take, Do_default, Do_recv_closed 0, Do_status 0, Do_final]"

definition scenario_lookup :: "real pipeline" where
  "scenario_lookup =
     \<lparr>main_pc = MInsert [], dm_pc = DMSelect, data = [], noMoreData = False,
      requestDataChannel = 0, responseClosed = False, rm_data = [], workerCount = 1,
      rm_returned = False, workers = [WLookup scenario_record],
      delivered = [(0, scenario_record)], lookups = []\<rparr>"

definition scenario_submit :: "real pipeline" where
  "scenario_submit =
     scenario_lookup\<lparr>workers := [WSubmit scenario_match],
       lookups := [(scenario_record, Inr 19)]\<rparr>"

definition scenario_held :: "real pipeline" where
  "scenario_held =
     scenario_lookup\<lparr>rm_data := [scenario_match], workers := [WRequest],
       lookups := [(scenario_record, Inr 19)]\<rparr>"

definition scenario_drained :: "real pipeline" where
  "scenario_drained =
     scenario_held\<lparr>main_pc := MRecvFinal, noMoreData := True, requestDataChannel := 1,
       workers := [WRecv]\<rparr>"

definition scenario_idle :: "real pipeline" where
  "scenario_idle = scenario_drained\<lparr>requestDataChannel := 0\<rparr>"

definition scenario_closed :: "real pipeline" where
  "scenario_closed = scenario_idle\<lparr>dm_pc := DMReturned, responseClosed := True\<rparr>"

definition scenario_told :: "real pipeline" where
  "scenario_told = scenario_closed\<lparr>workers := [WStatus]\<rparr>"

definition scenario_counted :: "real pipeline" where
  "scenario_counted = scenario_closed\<lparr>workerCount := 0, workers := [WExit]\<rparr>"

definition scenario_final :: "real pipeline" where
  "scenario_final = scenario_counted\<lparr>main_pc := MFinal [scenario_match], rm_returned := True\<rparr>"

text \<open>
  Another end of the same run: after the submission the input is closed and the monitor
  closes the response channel before the worker has sent its next request.
\<close>

definition scenario_closed_early :: "real pipeline" where
  "scenario_closed_early =
     scenario_held\<lparr>main_pc := MRecvFinal, noMoreData := True, dm_pc := DMReturned,
       responseClosed := True\<rparr>"






section \<open>The report\<close>

text \<open>
  \<^verbatim>\<open>%d\<close> of \<^verbatim>\<open>fmt\<close>: the decimal digits, with a minus sign in front of a negative number.
\<close>

definition digit_char :: "nat \<Rightarrow> char" where
  "digit_char d = ''0123456789'' ! d"

function fmt_nat :: "nat \<Rightarrow> string" where
  "fmt_nat n =
     (if n < 10 then [digit_char n] else fmt_nat (n div 10) @ [digit_char (n mod 10)])"
  by pat_completeness auto
termination
  by (relation "measure id") auto

declare fmt_nat.simps [simp del]

definition fmt_d :: "int \<Rightarrow> string" where
  "fmt_d i = (if i < 0 then CHR ''-'' # fmt_nat (nat (- i)) else fmt_nat (nat i))"

text \<open>
  The \<^verbatim>\<open>Fprintf\<close> of line 101. \<^verbatim>\<open>%.2f\<close> of a \<^verbatim>\<open>float64\<close> is the parameter \<open>fmt_2f\<close>.
\<close>

definition Fprintf_value :: "('f \<Rightarrow> string) \<Rightarrow> 'f ComputedStructure \<Rightarrow> string" where
  "Fprintf_value fmt_2f v =
     ''Date: '' @ Date v @ '' Lat: '' @ fmt_2f (Lat v) @ '' Lng: '' @ fmt_2f (Lng v)
       @ '' Guess Hour: '' @ fmt_d (Hour v) @ '' Sunset Hour: '' @ fmt_d (SunsetHour v)
       @ ''\<newline>''"

text \<open>The loop of lines 100 to 102, with the content of the file written so far.\<close>

fun write_values :: "('f \<Rightarrow> string) \<Rightarrow> string \<Rightarrow> 'f ComputedStructure list \<Rightarrow> string" where
  "write_values fmt_2f outputFile [] = outputFile"
| "write_values fmt_2f outputFile (v # computedData) =
     write_values fmt_2f (outputFile @ Fprintf_value fmt_2f v) computedData"

text \<open>
  \<^verbatim>\<open>writeOutputToFile\<close>: \<^verbatim>\<open>os.Create\<close> is the parameter \<open>os_Create\<close>, which says whether the
  file could be created; the result is the content of the file. The results of
  \<^verbatim>\<open>Fprintf\<close> are not looked at by the code, and writes do not fail in the model.
\<close>

definition writeOutputToFile ::
  "(string \<Rightarrow> bool) \<Rightarrow> ('f \<Rightarrow> string) \<Rightarrow> string \<Rightarrow> 'f ComputedStructure list
    \<Rightarrow> error + string" where
  "writeOutputToFile os_Create fmt_2f outputFilePath computedData =
     (if \<not> os_Create outputFilePath then Inl CreateError
      else Inr (write_values fmt_2f [] computedData
                 @ ''Count: '' @ fmt_d (int (length computedData)) @ ''\<newline>''))"

text \<open>
  The lines of a text: each one ends at a line feed, and what follows the last line feed
  is a line if it is not empty. \<open>cur\<close> is the line read so far.
\<close>

fun lines_from :: "string \<Rightarrow> string \<Rightarrow> string list" where
  "lines_from cur [] = (if cur = [] then [] else [cur])"
| "lines_from cur (c # cs) =
     (if c = CHR ''\<newline>'' then cur # lines_from [] cs else lines_from (cur @ [c]) cs)"

definition file_lines :: "string \<Rightarrow> string list" where
  "file_lines txt = lines_from [] txt"

text \<open>A line of the report for a match, without its line feed.\<close>

definition match_line :: "('f \<Rightarrow> string) \<Rightarrow> 'f ComputedStructure \<Rightarrow> string" where
  "match_line fmt_2f v =
     ''Date: '' @ Date v @ '' Lat: '' @ fmt_2f (Lat v) @ '' Lng: '' @ fmt_2f (Lng v)
       @ '' Guess Hour: '' @ fmt_d (Hour v) @ '' Sunset Hour: '' @ fmt_d (SunsetHour v)"

section \<open>Invariants of the runs\<close>

lemma mset_concat_map_update:
  "i < length ws \<Longrightarrow>
   mset (concat (map f (ws[i := w]))) + mset (f (ws ! i)) = mset (concat (map f ws)) + mset (f w)"
proof (induction ws arbitrary: i)
  case Nil then show ?case by simp
next
  case (Cons a ws)
  show ?case
  proof (cases i)
    case 0 then show ?thesis by simp
  next
    case (Suc j)
    with Cons.prems have "j < length ws" by simp
    from Cons.IH[OF this] Suc show ?thesis by (simp add: ac_simps)
  qed
qed

lemma filter_update:
  "i < length ws \<Longrightarrow>
   length (filter P (ws[i := w])) + (if P (ws ! i) then 1 else 0)
     = length (filter P ws) + (if P w then 1 else 0)"
proof (induction ws arbitrary: i)
  case Nil then show ?case by simp
next
  case (Cons a ws)
  show ?case
  proof (cases i)
    case 0 then show ?thesis by simp
  next
    case (Suc j)
    with Cons.prems have "j < length ws" by simp
    from Cons.IH[OF this] Suc show ?thesis by (auto split: if_splits)
  qed
qed

lemma inv_length: "reachable srt tp inp n s \<Longrightarrow> length (workers s) = nat n"
proof (induction rule: reachable.induct)
  case start then show ?case by (simp add: init_def)
next
  case (after s s')
  from after.hyps(2) after.IH show ?case
    by (cases rule: step.cases) auto
qed

lemma inv_conservation:
  "reachable srt tp inp n s \<Longrightarrow>
   mset (pending (main_pc s)) + mset (data s) + mset (map snd (delivered s)) = mset inp"
proof (induction rule: reachable.induct)
  case start then show ?case by (simp add: init_def)
next
  case (after s s')
  from after.hyps(2) after.IH show ?case
    by (cases rule: step.cases) auto
qed

lemma inv_dm:
  "reachable srt tp inp n s \<Longrightarrow>
   (responseClosed s \<longleftrightarrow> dm_pc s = DMReturned) \<and>
   (noMoreData s \<longrightarrow> pending (main_pc s) = [] \<and> main_pc s \<noteq> MInsert []) \<and>
   (\<not> noMoreData s \<longrightarrow> (\<exists>vs. main_pc s = MInsert vs)) \<and>
   (responseClosed s \<longrightarrow> noMoreData s \<and> data s = []) \<and>
   (dm_pc s = DMRespond \<longrightarrow> data s \<noteq> [])"
proof (induction rule: reachable.induct)
  case start then show ?case by (simp add: init_def)
next
  case (after s s')
  from after.hyps(2) after.IH show ?case
    by (cases rule: step.cases) auto
qed

lemma inv_told:
  "reachable srt tp inp n s \<Longrightarrow> i < length (workers s) \<Longrightarrow>
   workers s ! i = WStatus \<or> workers s ! i = WExit \<Longrightarrow> responseClosed s"
proof (induction arbitrary: i rule: reachable.induct)
  case start then show ?case by (simp add: init_def)
next
  case (after s s')
  from after.hyps(2) after.IH after.prems show ?case
    by (cases rule: step.cases) (auto simp: nth_list_update InitWorker_process_def split: if_splits sum.splits)
qed


lemma waiting_process [simp]: "\<not> waiting (InitWorker_process tp resp r)"
  by (simp add: InitWorker_process_def split: sum.splits)

lemma not_exit_process [simp]: "InitWorker_process tp resp r \<noteq> WExit"
  by (simp add: InitWorker_process_def split: sum.splits)

lemma inv_requests:
  "reachable srt tp inp n s \<Longrightarrow>
   requestDataChannel s + (if dm_pc s = DMRespond then 1 else 0)
     \<le> length (filter waiting (workers s))"
proof (induction rule: reachable.induct)
  case start then show ?case by (simp add: init_def)
next
  case (after s s')
  from after.hyps(2) after.IH show ?case
  proof (cases rule: step.cases)
    case (worker_request i)
    with filter_update[of i "workers s" waiting WRecv] after.IH show ?thesis by auto
  next
    case (dm_respond r rest i)
    with filter_update[of i "workers s" waiting "WLookup r"] after.IH show ?thesis by auto
  next
    case (worker_recv_closed i)
    with filter_update[of i "workers s" waiting WStatus] after.IH show ?thesis by auto
  next
    case (worker_lookup i r resp)
    with filter_update[of i "workers s" waiting "InitWorker_process tp resp r"] after.IH
    show ?thesis by auto
  next
    case (rm_result i c)
    with filter_update[of i "workers s" waiting WRequest] after.IH show ?thesis by auto
  next
    case (rm_status i)
    with filter_update[of i "workers s" waiting WExit] after.IH show ?thesis by auto
  qed auto
qed

lemma inv_counter:
  "reachable srt tp inp n s \<Longrightarrow>
   workerCount s + int (length (filter (\<lambda>w. w = WExit) (workers s))) = n \<and> 0 \<le> workerCount s"
proof (induction rule: reachable.induct)
  case start then show ?case by (simp add: init_def)
next
  case (after s s')
  from after.hyps(2) after.IH show ?case
  proof (cases rule: step.cases)
    case (worker_request i)
    with filter_update[of i "workers s" "\<lambda>w. w = WExit" WRecv] after.IH show ?thesis by auto
  next
    case (dm_respond r rest i)
    with filter_update[of i "workers s" "\<lambda>w. w = WExit" "WLookup r"] after.IH show ?thesis by auto
  next
    case (worker_recv_closed i)
    with filter_update[of i "workers s" "\<lambda>w. w = WExit" WStatus] after.IH show ?thesis by auto
  next
    case (worker_lookup i r resp)
    with filter_update[of i "workers s" "\<lambda>w. w = WExit" "InitWorker_process tp resp r"] after.IH
    show ?thesis by auto
  next
    case (rm_result i c)
    with filter_update[of i "workers s" "\<lambda>w. w = WExit" WRequest] after.IH show ?thesis by auto
  next
    case (rm_status i)
    with filter_update[of i "workers s" "\<lambda>w. w = WExit" WExit] after.IH show ?thesis by auto
  qed auto
qed

lemma inv_final:
  "reachable srt tp inp n s \<Longrightarrow>
   (rm_returned s \<longleftrightarrow> (\<exists>d. main_pc s = MFinal d)) \<and>
   (\<forall>d. main_pc s = MFinal d \<longrightarrow> d = rm_data s \<and> workerCount s = 0)"
proof (induction rule: reachable.induct)
  case start then show ?case by (simp add: init_def)
next
  case (after s s')
  from after.hyps(2) after.IH inv_counter[OF after.hyps(1)] show ?case
    by (cases rule: step.cases) auto
qed


lemma matches_append: "matches (l @ l') = matches l @ matches l'"
  by (induction l rule: matches.induct) auto

lemma held_match_process:
  "held_match (InitWorker_process tp resp r) = matches [(r, FindSunsetHour tp resp)]"
  by (simp add: InitWorker_process_def split: sum.splits)

lemma inv_matches:
  "reachable srt tp inp n s \<Longrightarrow> sort_Slice_contract srt \<Longrightarrow>
   mset (rm_data s) + mset (concat (map held_match (workers s))) = mset (matches (lookups s))"
proof (induction rule: reachable.induct)
  case start then show ?case by (simp add: init_def)
next
  case (after s s')
  from after.prems have srt: "\<And>xs. mset (srt less_Hour xs) = mset xs"
    by (simp add: sort_Slice_contract_def)
  from after.hyps(2) show ?case
  proof (cases rule: step.cases)
    case (worker_request i)
    with mset_concat_map_update[of i "workers s" held_match WRecv] after.IH[OF after.prems] show ?thesis by auto
  next
    case (dm_respond r rest i)
    with mset_concat_map_update[of i "workers s" held_match "WLookup r"] after.IH[OF after.prems] show ?thesis by auto
  next
    case (worker_recv_closed i)
    with mset_concat_map_update[of i "workers s" held_match WStatus] after.IH[OF after.prems] show ?thesis by auto
  next
    case (worker_lookup i r resp)
    with mset_concat_map_update[of i "workers s" held_match "InitWorker_process tp resp r"] after.IH[OF after.prems]
    show ?thesis by (auto simp: matches_append held_match_process)
  next
    case (rm_result i c)
    with mset_concat_map_update[of i "workers s" held_match WRequest, symmetric] after.IH[OF after.prems] srt
    show ?thesis by (auto simp: InitResultMonitor_result_def)
  next
    case (rm_status i)
    with mset_concat_map_update[of i "workers s" held_match WExit] after.IH[OF after.prems] show ?thesis by auto
  qed (use after.IH[OF after.prems] in auto)
qed

lemma inv_sorted:
  "reachable srt tp inp n s \<Longrightarrow> sort_Slice_contract srt \<Longrightarrow> sorted (map Hour (rm_data s))"
proof (induction rule: reachable.induct)
  case start then show ?case by (simp add: init_def)
next
  case (after s s')
  from after.prems have srt: "\<And>xs. sorted (map Hour (srt less_Hour xs))"
    by (simp add: sort_Slice_contract_def)
  from after.hyps(2) after.IH[OF after.prems] srt show ?case
    by (cases rule: step.cases) (auto simp: InitResultMonitor_result_def)
qed


section \<open>Sorts that keep the promise of the library\<close>

lemma mset_insert_behind: "mset (insert_behind lt x ys) = add_mset x (mset ys)"
  by (induction ys) auto


lemma set_insert_behind: "set (insert_behind lt x ys) = insert x (set ys)"
  by (induction ys) auto


lemma sorted_insert_behind:
  "sorted (map Hour ys) \<Longrightarrow> sorted (map Hour (insert_behind less_Hour x ys))"
  by (induction ys) (auto simp: set_insert_behind less_Hour_def)


lemma foldl_insert_behind:
  "mset (foldl (\<lambda>acc x. insert_behind lt x acc) acc xs) = mset acc + mset xs"
  by (induction xs arbitrary: acc) (auto simp: mset_insert_behind)


lemma foldl_sorted_behind:
  "sorted (map Hour acc) \<Longrightarrow>
   sorted (map Hour (foldl (\<lambda>acc x. insert_behind less_Hour x acc) acc xs))"
  by (induction xs arbitrary: acc) (auto simp: sorted_insert_behind)


lemma insertion_sort_contract: "sort_Slice_contract insertion_sort"
  by (simp add: sort_Slice_contract_def insertion_sort_def foldl_insert_behind foldl_sorted_behind)


section \<open>Schedules are runs\<close>

lemma fire_step: "fire srt tp a s = Some s' \<Longrightarrow> step srt tp s s'"
proof (cases a)
  case Do_insert
  assume "fire srt tp a s = Some s'"
  with Do_insert show ?thesis
    by (auto split: main_pc.splits list.splits if_splits intro: step.main_insert)
next
  case Do_noMore
  assume "fire srt tp a s = Some s'"
  with Do_noMore show ?thesis by (auto split: if_splits intro: step.main_noMore)
next
  case (Do_request i)
  assume "fire srt tp a s = Some s'"
  with Do_request step.worker_request[of i s srt tp] show ?thesis by (auto split: if_splits)
next
  case Do_take
  assume "fire srt tp a s = Some s'"
  with Do_take step.dm_request_some[of s srt tp] step.dm_request_none[of s srt tp]
  show ?thesis by (auto split: if_splits)
next
  case (Do_respond i)
  assume "fire srt tp a s = Some s'"
  with Do_respond show ?thesis by (auto split: list.splits if_splits intro: step.dm_respond)
next
  case Do_default
  assume "fire srt tp a s = Some s'"
  with Do_default show ?thesis
    by (auto split: if_splits intro: step.dm_default_close step.dm_default_spin)
next
  case (Do_recv_closed i)
  assume "fire srt tp a s = Some s'"
  with Do_recv_closed show ?thesis by (auto split: if_splits intro: step.worker_recv_closed)
next
  case (Do_lookup i resp)
  assume "fire srt tp a s = Some s'"
  with Do_lookup show ?thesis
    by (auto split: if_splits worker_pc.splits intro: step.worker_lookup)
next
  case (Do_result i)
  assume "fire srt tp a s = Some s'"
  with Do_result show ?thesis by (auto split: if_splits worker_pc.splits intro: step.rm_result)
next
  case (Do_status i)
  assume "fire srt tp a s = Some s'"
  with Do_status show ?thesis by (auto split: if_splits intro: step.rm_status)
next
  case Do_final
  assume "fire srt tp a s = Some s'"
  with Do_final show ?thesis by (auto split: if_splits intro: step.rm_final)
qed

lemma step_fire: "step srt tp s s' \<Longrightarrow> \<exists>a. fire srt tp a s = Some s'"
proof (induction rule: step.induct)
  case (main_insert s v vs) then show ?case by (intro exI[of _ Do_insert]) simp
next
  case (main_noMore s) then show ?case by (intro exI[of _ Do_noMore]) simp
next
  case (worker_request i s) then show ?case by (intro exI[of _ "Do_request i"]) simp
next
  case (dm_request_some s) then show ?case by (intro exI[of _ Do_take]) simp
next
  case (dm_request_none s) then show ?case by (intro exI[of _ Do_take]) simp
next
  case (dm_respond s r rest i) then show ?case by (intro exI[of _ "Do_respond i"]) simp
next
  case (dm_default_close s) then show ?case by (intro exI[of _ Do_default]) simp
next
  case (dm_default_spin s) then show ?case by (intro exI[of _ Do_default]) auto
next
  case (worker_recv_closed i s) then show ?case by (intro exI[of _ "Do_recv_closed i"]) simp
next
  case (worker_lookup i s r resp) then show ?case by (intro exI[of _ "Do_lookup i resp"]) simp
next
  case (rm_result i s c) then show ?case by (intro exI[of _ "Do_result i"]) simp
next
  case (rm_status i s) then show ?case by (intro exI[of _ "Do_status i"]) simp
next
  case (rm_final s) then show ?case by (intro exI[of _ Do_final]) simp
qed

lemma run_reachable:
  "reachable srt tp inp n s \<Longrightarrow> run srt tp as s = Some s' \<Longrightarrow> reachable srt tp inp n s'"
proof (induction as arbitrary: s)
  case Nil then show ?case by simp
next
  case (Cons a as)
  from Cons.prems(2) obtain t where t: "fire srt tp a s = Some t" "run srt tp as t = Some s'"
    by (auto split: option.splits)
  from reachable.after[OF Cons.prems(1) fire_step[OF t(1)]] t(2) show ?case
    by (rule Cons.IH)
qed

section \<open>Runs that exist for every input\<close>

lemma insert_all:
  "reachable srt tp inp n s \<Longrightarrow> main_pc s = MInsert vs \<Longrightarrow> dm_pc s = DMSelect \<Longrightarrow>
   reachable srt tp inp n (s\<lparr>main_pc := MInsert [], data := data s @ vs\<rparr>)"
proof (induction vs arbitrary: s)
  case Nil
  then have "s\<lparr>main_pc := MInsert [], data := data s @ []\<rparr> = s" by (cases s) simp
  with Nil.prems(1) show ?case by simp
next
  case (Cons v vs)
  let ?t = "s\<lparr>main_pc := MInsert vs, data := data s @ [v]\<rparr>"
  from Cons.prems have "step srt tp s ?t" by (intro step.main_insert)
  with Cons.prems(1) have "reachable srt tp inp n ?t" by (rule reachable.after)
  from Cons.IH[OF this] Cons.prems show ?case by simp
qed

lemma requests_dropped:
  "k \<le> m \<Longrightarrow>
   reachable srt tp inp n
     (s\<lparr>workers := replicate m WRequest\<rparr>) \<Longrightarrow>
   dm_pc s = DMSelect \<Longrightarrow> requestDataChannel s = 0 \<Longrightarrow> data s = [] \<Longrightarrow>
   reachable srt tp inp n
     (s\<lparr>workers := replicate k WRecv @ replicate (m - k) WRequest\<rparr>)"
proof (induction k)
  case 0
  then show ?case by simp
next
  case (Suc k)
  let ?ws = "replicate k WRecv @ replicate (m - k) WRequest"
  let ?s = "s\<lparr>workers := ?ws\<rparr>"
  from Suc have r: "reachable srt tp inp n ?s" by simp
  from Suc.prems(1) have len: "length ?ws = m" "k < m" by simp_all
  then have at: "?ws ! k = WRequest" by (simp add: nth_append)
  have upd: "?ws[k := WRecv] = replicate (Suc k) WRecv @ replicate (m - Suc k) WRequest"
  proof -
    from len obtain j where j: "m - k = Suc j" by (cases "m - k") auto
    then have "m - Suc k = j" by simp
    with j show ?thesis by (simp add: list_update_append replicate_append_same)
  qed
  from len at Suc.prems(4) step.worker_request[of k ?s srt tp]
  have "step srt tp ?s (?s\<lparr>requestDataChannel := 1, workers := ?ws[k := WRecv]\<rparr>)"
    by simp
  with r have r1: "reachable srt tp inp n (?s\<lparr>requestDataChannel := 1, workers := ?ws[k := WRecv]\<rparr>)"
    by (rule reachable.after)
  let ?t = "?s\<lparr>requestDataChannel := 1, workers := ?ws[k := WRecv]\<rparr>"
  from Suc.prems step.dm_request_none[of ?t srt tp]
  have "step srt tp ?t (?t\<lparr>requestDataChannel := 0\<rparr>)" by simp
  with r1 have "reachable srt tp inp n (?t\<lparr>requestDataChannel := 0\<rparr>)"
    by (rule reachable.after)
  moreover from Suc.prems(4) upd
  have "?t\<lparr>requestDataChannel := 0\<rparr> = s\<lparr>workers := replicate (Suc k) WRecv @ replicate (m - Suc k) WRequest\<rparr>"
    by (cases s) simp
  ultimately show ?case by simp
qed

lemma stuck_reachable:
  assumes "0 \<le> n"
  shows "reachable srt tp inp n (stuck inp n)"
proof -
  let ?m = "nat n"
  have r0: "reachable srt tp inp n (init inp n)" using assms by (rule reachable.start)
  have "init inp n = (init inp n)\<lparr>workers := replicate ?m WRequest\<rparr>" by (simp add: init_def)
  with r0 have "reachable srt tp inp n ((init inp n)\<lparr>workers := replicate ?m WRequest\<rparr>)" by simp
  from requests_dropped[OF le_refl this]
  have r1: "reachable srt tp inp n ((init inp n)\<lparr>workers := replicate ?m WRecv\<rparr>)"
    by (simp add: init_def)
  let ?s1 = "(init inp n)\<lparr>workers := replicate ?m WRecv\<rparr>"
  from insert_all[OF r1, of inp]
  have r2: "reachable srt tp inp n (?s1\<lparr>main_pc := MInsert [], data := inp\<rparr>)"
    by (simp add: init_def)
  let ?s2 = "?s1\<lparr>main_pc := MInsert [], data := inp\<rparr>"
  have "step srt tp ?s2 (?s2\<lparr>main_pc := MRecvFinal, noMoreData := True\<rparr>)"
    by (rule step.main_noMore) (simp_all add: init_def)
  with r2 have "reachable srt tp inp n (?s2\<lparr>main_pc := MRecvFinal, noMoreData := True\<rparr>)"
    by (rule reachable.after)
  moreover have "?s2\<lparr>main_pc := MRecvFinal, noMoreData := True\<rparr> = stuck inp n"
    by (simp add: init_def stuck_def)
  ultimately show ?thesis by simp
qed

lemma stuck_spins:
  assumes "0 < n" and "inp \<noteq> []" and "step srt tp (stuck inp n) s'"
  shows "s' = stuck inp n"
  using assms(3)
proof (cases rule: step.cases)
  case (worker_request i)
  then show ?thesis by (simp add: stuck_def)
next
  case (dm_respond r rest i)
  then show ?thesis by (simp add: stuck_def)
next
  case (worker_recv_closed i)
  then show ?thesis by (simp add: stuck_def)
next
  case (worker_lookup i r resp)
  then show ?thesis by (simp add: stuck_def)
next
  case (rm_result i c)
  then show ?thesis by (simp add: stuck_def)
next
  case (rm_status i)
  then show ?thesis by (simp add: stuck_def)
next
  case rm_final
  with assms(1) show ?thesis by (simp add: stuck_def)
qed (use assms in \<open>simp_all add: stuck_def\<close>)

section \<open>Steps from a reachable state\<close>



lemma monitor_in_loop:
  assumes "reachable srt tp inp n s" and "i < length (workers s)" and "workers s ! i \<noteq> WExit"
  shows "0 < workerCount s"
proof -
  from assms(2) have "workers s ! i \<in> set (workers s)" by simp
  then have "length (filter (\<lambda>w. w = WExit) (workers s)) < length (workers s)"
    using assms(3) by (rule length_filter_less)
  with inv_counter[OF assms(1)] inv_length[OF assms(1)] show ?thesis by linarith
qed

lemma step_closed:
  assumes "step srt tp s s'" and "responseClosed s"
  shows "responseClosed s'"
  using assms by (cases rule: step.cases) auto

lemma step_drained:
  assumes "reachable srt tp inp n s" and "step srt tp s s'"
    and "noMoreData s" and "data s = []"
  shows "noMoreData s' \<and> data s' = [] \<and> delivered s' = delivered s"
  using assms(2) inv_dm[OF assms(1)] assms(3,4)
  by (cases rule: step.cases) auto

lemma drained_monitor:
  assumes "reachable srt tp inp n s" and "noMoreData s" and "data s = []"
    and "\<not> responseClosed s"
  shows "dm_pc s = DMSelect"
  using inv_dm[OF assms(1)] assms(2-4) by (cases "dm_pc s") auto

lemma request_room:
  assumes "reachable srt tp inp n s" and "i < length (workers s)" and "workers s ! i = WRequest"
  shows "requestDataChannel s < length (workers s)"
proof -
  from assms(2,3) have "WRequest \<in> set (workers s)" by (metis nth_mem)
  then have "length (filter waiting (workers s)) < length (workers s)"
    by (rule length_filter_less) simp
  with inv_requests[OF assms(1)] show ?thesis by simp
qed

lemma waiting_worker_stays:
  assumes "step srt tp s s'" and "dm_pc s = DMReturned"
    and "i < length (workers s)" and "workers s ! i = WRecv"
  shows "workers s' ! i = WRecv \<or> workers s' ! i = WStatus"
  using assms by (cases rule: step.cases) (auto simp: nth_list_update)

lemma step_open_requests:
  assumes "reachable srt tp inp n s" and "step srt tp s s'"
    and "noMoreData s" and "data s = []" and "\<not> responseClosed s"
  shows "responseClosed s' \<or> open_requests s' \<le> open_requests s"
  using assms(2)
proof (cases rule: step.cases)
  case (worker_request i)
  with filter_update[of i "workers s" "\<lambda>w. \<not> waiting w" WRecv] show ?thesis
    by (simp add: open_requests_def)
next
  case (worker_recv_closed i)
  with assms(5) show ?thesis by simp
next
  case (worker_lookup i r resp)
  with filter_update[of i "workers s" "\<lambda>w. \<not> waiting w" "InitWorker_process tp resp r"]
  show ?thesis by (simp add: open_requests_def)
next
  case (rm_result i c)
  with filter_update[of i "workers s" "\<lambda>w. \<not> waiting w" WRequest] show ?thesis
    by (simp add: open_requests_def)
next
  case (rm_status i)
  with inv_told[OF assms(1), of i] assms(5) show ?thesis by simp
qed (use assms(3,4) inv_dm[OF assms(1)] in \<open>auto simp: open_requests_def\<close>)

lemma step_returned:
  assumes "reachable srt tp inp n s" and "step srt tp s s'" and "rm_returned s"
  shows "rm_returned s' \<and> main_pc s' = main_pc s \<and> rm_data s' = rm_data s"
  using assms(2) inv_final[OF assms(1)] assms(3)
  by (cases rule: step.cases) auto

lemma step_publishes:
  assumes "step srt tp s s'" and "\<not> rm_returned s" and "rm_returned s'"
  shows "\<not> 0 < workerCount s \<and> main_pc s = MRecvFinal \<and> main_pc s' = MFinal (rm_data s)"
  using assms by (cases rule: step.cases) auto

lemma failed_lookup_continues:
  assumes "reachable srt tp inp n s" and "i < length (workers s)"
    and "workers s ! i = WLookup r" and "FindSunsetHour tp resp = Inl e"
  shows "step srt tp s
           (s\<lparr>workers := (workers s)[i := WRequest], lookups := lookups s @ [(r, Inl e)]\<rparr>)"
    and "step srt tp
           (s\<lparr>workers := (workers s)[i := WRequest], lookups := lookups s @ [(r, Inl e)]\<rparr>)
           (s\<lparr>workers := (workers s)[i := WRecv], lookups := lookups s @ [(r, Inl e)],
              requestDataChannel := requestDataChannel s + 1\<rparr>)"
proof -
  let ?t = "s\<lparr>workers := (workers s)[i := WRequest], lookups := lookups s @ [(r, Inl e)]\<rparr>"
  from assms(2-4) step.worker_lookup[of i s r srt tp resp]
  show st: "step srt tp s ?t" by (simp add: InitWorker_process_def)
  with assms(1) have rt: "reachable srt tp inp n ?t" by (rule reachable.after)
  from assms(2) have "i < length (workers ?t)" "workers ?t ! i = WRequest" by simp_all
  from request_room[OF rt this] this step.worker_request[of i ?t srt tp]
  have st2: "step srt tp ?t
          (?t\<lparr>requestDataChannel := requestDataChannel ?t + 1,
              workers := (workers ?t)[i := WRecv]\<rparr>)"
    by blast
  have eq: "?t\<lparr>requestDataChannel := requestDataChannel ?t + 1,
              workers := (workers ?t)[i := WRecv]\<rparr>
       = s\<lparr>workers := (workers s)[i := WRecv], lookups := lookups s @ [(r, Inl e)],
              requestDataChannel := requestDataChannel s + 1\<rparr>"
    by (cases s) simp
  from st2 show "step srt tp ?t
           (s\<lparr>workers := (workers s)[i := WRecv], lookups := lookups s @ [(r, Inl e)],
              requestDataChannel := requestDataChannel s + 1\<rparr>)"
    unfolding eq .
qed

lemma step_counter:
  assumes "step srt tp s s'"
  shows "workerCount s' = workerCount s
     \<or> (workerCount s' = workerCount s - 1
         \<and> (\<exists>i < length (workers s).
               workers s ! i = WStatus \<and> workers s' = (workers s)[i := WExit]))"
  using assms by (cases rule: step.cases) auto

lemma matches_equal_hours: "c \<in> set (matches l) \<Longrightarrow> SunsetHour c = Hour c"
  by (induction l rule: matches.induct) (auto split: if_splits)

lemma matches_from_lookup:
  "c \<in> set (matches l) \<Longrightarrow>
   \<exists>r. (r, Inr (Hour r)) \<in> set l \<and>
     c = \<lparr>Date = Date r, Lat = Lat r, Lng = Lng r, Hour = Hour r, SunsetHour = Hour r\<rparr>"
  by (induction l rule: matches.induct) (auto split: if_splits)

lemma length_matches: "length (matches l) \<le> length (filter (\<lambda>x. \<not> isl (snd x)) l)"
  by (induction l rule: matches.induct) auto

lemma held_match_mem: "WSubmit c \<in> set ws \<Longrightarrow> c \<in> set (concat (map held_match ws))"
  by (induction ws) auto

lemma computed_in_matches:
  assumes "reachable srt tp inp n s" and "sort_Slice_contract srt"
    and "c \<in> set (rm_data s) \<or> WSubmit c \<in> set (workers s)"
  shows "c \<in> set (matches (lookups s))"
proof -
  from assms(3) held_match_mem[of c "workers s"]
  have "c \<in># mset (rm_data s) + mset (concat (map held_match (workers s)))" by auto
  with inv_matches[OF assms(1,2)] show ?thesis by simp
qed



section \<open>The runs of the examples\<close>

lemmas scenario_defs =
  init_def InitWorker_process_def FindSunsetHour_def scenario_Parse_def
  scenario_record_def scenario_OK_def scenario_match_def InitResultMonitor_result_def
  insertion_sort_def scenario_schedule_def scenario_lookup_def scenario_held_def
  scenario_drained_def scenario_idle_def scenario_closed_def scenario_told_def
  scenario_counted_def scenario_final_def scenario_closed_early_def scenario_submit_def

lemma scenario_runs:
  "run insertion_sort scenario_Parse (take 4 scenario_schedule) (init [scenario_record] 1)
     = Some scenario_lookup"
  "run insertion_sort scenario_Parse (take 6 scenario_schedule) (init [scenario_record] 1)
     = Some scenario_held"
  "run insertion_sort scenario_Parse (take 8 scenario_schedule) (init [scenario_record] 1)
     = Some scenario_drained"
  "run insertion_sort scenario_Parse (take 10 scenario_schedule) (init [scenario_record] 1)
     = Some scenario_closed"
  "run insertion_sort scenario_Parse (take 12 scenario_schedule) (init [scenario_record] 1)
     = Some scenario_counted"
  "run insertion_sort scenario_Parse scenario_schedule (init [scenario_record] 1)
     = Some scenario_final"
  "run insertion_sort scenario_Parse (take 9 scenario_schedule) (init [scenario_record] 1)
     = Some scenario_idle"
  "run insertion_sort scenario_Parse (take 11 scenario_schedule) (init [scenario_record] 1)
     = Some scenario_told"
  "run insertion_sort scenario_Parse (take 6 scenario_schedule @ [Do_noMore, Do_default])
     (init [scenario_record] 1) = Some scenario_closed_early"
  "run insertion_sort scenario_Parse (take 5 scenario_schedule) (init [scenario_record] 1)
     = Some scenario_submit"
  by (simp_all add: scenario_defs)

lemma scenario_start:
  "reachable insertion_sort scenario_Parse [scenario_record] 1 (init [scenario_record] 1)"
  by (rule reachable.start) simp

lemma scenario_reachable:
  "reachable insertion_sort scenario_Parse [scenario_record] 1 scenario_lookup"
  "reachable insertion_sort scenario_Parse [scenario_record] 1 scenario_held"
  "reachable insertion_sort scenario_Parse [scenario_record] 1 scenario_drained"
  "reachable insertion_sort scenario_Parse [scenario_record] 1 scenario_closed"
  "reachable insertion_sort scenario_Parse [scenario_record] 1 scenario_counted"
  "reachable insertion_sort scenario_Parse [scenario_record] 1 scenario_final"
  "reachable insertion_sort scenario_Parse [scenario_record] 1 scenario_idle"
  "reachable insertion_sort scenario_Parse [scenario_record] 1 scenario_told"
  "reachable insertion_sort scenario_Parse [scenario_record] 1 scenario_closed_early"
  "reachable insertion_sort scenario_Parse [scenario_record] 1 scenario_submit"
  using scenario_runs run_reachable[OF scenario_start] by blast+


section \<open>Runs without workers, and the delivery of any record\<close>






section \<open>Lemmas on the report\<close>

lemma digit_char_no_newline: "d < 10 \<Longrightarrow> digit_char d \<noteq> CHR ''\<newline>''"
proof -
  assume "d < 10"
  then have "digit_char d \<in> set ''0123456789''"
    unfolding digit_char_def by (intro nth_mem) simp
  then show ?thesis by auto
qed

lemma fmt_nat_no_newline: "CHR ''\<newline>'' \<notin> set (fmt_nat n)"
proof (induction n rule: fmt_nat.induct)
  case (1 n)
  show ?case
  proof (cases "n < 10")
    case True
    then show ?thesis
      using digit_char_no_newline[of n] by (subst fmt_nat.simps) auto
  next
    case False
    have "n mod 10 < 10" by simp
    from digit_char_no_newline[OF this] 1[OF False] False show ?thesis
      by (subst fmt_nat.simps) auto
  qed
qed

lemma fmt_d_no_newline: "CHR ''\<newline>'' \<notin> set (fmt_d i)"
  using fmt_nat_no_newline by (simp add: fmt_d_def)

lemma write_values_concat:
  "write_values fmt_2f outputFile computedData
     = outputFile @ concat (map (Fprintf_value fmt_2f) computedData)"
  by (induction computedData arbitrary: outputFile) simp_all

lemma Fprintf_value_line: "Fprintf_value fmt_2f v = match_line fmt_2f v @ ''\<newline>''"
  by (simp add: Fprintf_value_def match_line_def)

lemma lines_from_line:
  "CHR ''\<newline>'' \<notin> set l \<Longrightarrow>
   lines_from cur (l @ CHR ''\<newline>'' # rest) = (cur @ l) # lines_from [] rest"
  by (induction l arbitrary: cur) auto

lemma match_line_no_newline:
  "CHR ''\<newline>'' \<notin> set (Date v) \<Longrightarrow> CHR ''\<newline>'' \<notin> set (fmt_2f (Lat v)) \<Longrightarrow>
   CHR ''\<newline>'' \<notin> set (fmt_2f (Lng v)) \<Longrightarrow> CHR ''\<newline>'' \<notin> set (match_line fmt_2f v)"
  using fmt_d_no_newline by (auto simp: match_line_def)

lemma file_lines_values:
  "(\<forall>v \<in> set vs. CHR ''\<newline>'' \<notin> set (match_line fmt_2f v)) \<Longrightarrow>
   lines_from [] (concat (map (Fprintf_value fmt_2f) vs) @ rest)
     = map (match_line fmt_2f) vs @ lines_from [] rest"
proof (induction vs)
  case Nil then show ?case by simp
next
  case (Cons v vs)
  then show ?case
    using lines_from_line[of "match_line fmt_2f v" "[]"]
    by (simp add: Fprintf_value_line)
qed

section \<open>The claims\<close>

text \<open>
  C1. Every record pushed into the queue is delivered to exactly one worker exactly once,
  and the done signal is not given before. The code keeps the second half and never
  loses or doubles a record (in every state the records still to send, the queue and the
  records delivered so far make up the input, and the response channel is closed only
  when all of the input has been delivered), but it does not deliver every record: a request that the data monitor receives while the queue is empty is
  taken from the channel and forgotten (line 135 to 140), and the worker that sent it
  waits for a response and sends nothing more. For every positive worker count and every
  input that is not empty there is a run in which this happens to all workers before the
  first record is inserted; it ends in the state \<open>stuck\<close>, where the whole input lies in
  the queue, nothing has been delivered, and the only step left is the monitor's default
  case, which changes nothing: the pipeline spins for ever.
\<close>

theorem lost_requests_hang:
  "0 < n \<Longrightarrow> inputData \<noteq> [] \<Longrightarrow>
   reachable srt time_Parse inputData n (stuck inputData n)
   \<and> (\<forall>s'. step srt time_Parse (stuck inputData n) s' \<longrightarrow> s' = stuck inputData n)
   \<and> (reachable srt time_Parse inputData n s \<longrightarrow>
        mset (pending (main_pc s)) + mset (data s) + mset (map snd (delivered s))
          = mset inputData
        \<and> (responseClosed s \<longrightarrow> mset (map snd (delivered s)) = mset inputData))"
proof -
  assume n: "0 < n" and i: "inputData \<noteq> []"
  have 1: "reachable srt time_Parse inputData n (stuck inputData n)"
    using n by (intro stuck_reachable) simp
  have 2: "\<forall>s'. step srt time_Parse (stuck inputData n) s' \<longrightarrow> s' = stuck inputData n"
    using stuck_spins[OF n i] by blast
  have 3: "mset (pending (main_pc s)) + mset (data s) + mset (map snd (delivered s))
          = mset inputData
        \<and> (responseClosed s \<longrightarrow> mset (map snd (delivered s)) = mset inputData)"
    if r: "reachable srt time_Parse inputData n s"
    using inv_conservation[OF r] inv_dm[OF r] by auto
  from 1 2 3 show ?thesis by blast
qed

theorem lost_requests_hang_witness:
  "reachable insertion_sort scenario_Parse [scenario_record] 10 (stuck [scenario_record] 10)
   \<and> step insertion_sort scenario_Parse (stuck [scenario_record] 10) (stuck [scenario_record] 10)
   \<and> main_pc (stuck [scenario_record] 10) = MRecvFinal
   \<and> data (stuck [scenario_record] 10) = [scenario_record]
   \<and> delivered (stuck [scenario_record] 10) = []
   \<and> \<not> responseClosed (stuck [scenario_record] 10)
   \<and> responseClosed scenario_closed
   \<and> mset (map snd (delivered scenario_closed)) = mset [scenario_record]"
proof -
  have "step insertion_sort scenario_Parse (stuck [scenario_record] 10) (stuck [scenario_record] 10)"
    by (rule step.dm_default_spin) (simp_all add: stuck_def)
  with lost_requests_hang[of 10 "[scenario_record]" insertion_sort scenario_Parse
      "stuck [scenario_record] 10"]
    lost_requests_hang[of 1 "[scenario_record]" insertion_sort scenario_Parse scenario_closed]
    scenario_reachable(4)
  show ?thesis by (simp add: stuck_def scenario_defs)
qed




text \<open>
  C3. Once the data monitor has received the signal on \<^verbatim>\<open>noMoreDataChannel\<close> and its
  queue is empty, this stays so and no worker receives a record any more; the monitor is
  not blocked: it takes the buffered requests one by one, and with none buffered its
  default case closes the response channel. Each request it takes makes \<open>open_requests\<close>
  smaller and no step of another goroutine makes it greater, so the channel is closed
  after at most \<open>open_requests s\<close> more receives. Once the channel is closed it stays closed;
  a worker that is about to request can send (the buffer has room), and a worker that
  waits can leave its receive with the answer that there is no more data, and does
  nothing else. A worker has been told that there is no more data only if the channel is
  closed, and then the input was closed, the queue is empty, the main goroutine has
  nothing left to send and every record of the input has been delivered.
\<close>

theorem no_more_data_after_closeInput:
  assumes "reachable srt time_Parse inputData n s"
  shows
    "(noMoreData s \<and> data s = [] \<longrightarrow>
        (\<forall>s'. step srt time_Parse s s' \<longrightarrow>
           noMoreData s' \<and> data s' = [] \<and> delivered s' = delivered s)
        \<and> (\<not> responseClosed s \<and> 0 < requestDataChannel s \<longrightarrow>
             step srt time_Parse s (s\<lparr>requestDataChannel := requestDataChannel s - 1\<rparr>)
             \<and> open_requests (s\<lparr>requestDataChannel := requestDataChannel s - 1\<rparr>)
                 < open_requests s)
        \<and> (\<not> responseClosed s \<and> requestDataChannel s = 0 \<longrightarrow>
             step srt time_Parse s (s\<lparr>dm_pc := DMReturned, responseClosed := True\<rparr>))
        \<and> (\<not> responseClosed s \<longrightarrow>
             (\<forall>s'. step srt time_Parse s s' \<longrightarrow>
                responseClosed s' \<or> open_requests s' \<le> open_requests s)))
     \<and> (responseClosed s \<longrightarrow>
        (\<forall>s'. step srt time_Parse s s' \<longrightarrow> responseClosed s')
        \<and> (\<forall>i < length (workers s).
             (workers s ! i = WRequest \<longrightarrow>
                step srt time_Parse s
                  (s\<lparr>requestDataChannel := requestDataChannel s + 1,
                     workers := (workers s)[i := WRecv]\<rparr>))
             \<and> (workers s ! i = WRecv \<longrightarrow>
                  step srt time_Parse s (s\<lparr>workers := (workers s)[i := WStatus]\<rparr>)
                  \<and> (\<forall>s'. step srt time_Parse s s' \<longrightarrow>
                        workers s' ! i = WRecv \<or> workers s' ! i = WStatus))))
     \<and> (\<forall>i < length (workers s).
           workers s ! i = WStatus \<or> workers s ! i = WExit \<longrightarrow> responseClosed s)
     \<and> (responseClosed s \<longrightarrow>
           noMoreData s \<and> data s = [] \<and> pending (main_pc s) = []
           \<and> mset (map snd (delivered s)) = mset inputData)"
proof -
  note d = inv_dm[OF assms]
  have a1: "noMoreData s \<and> data s = [] \<longrightarrow>
        (\<forall>s'. step srt time_Parse s s' \<longrightarrow>
           noMoreData s' \<and> data s' = [] \<and> delivered s' = delivered s)"
    using step_drained[OF assms] by blast
  have a2: "noMoreData s \<and> data s = [] \<longrightarrow> \<not> responseClosed s \<and> 0 < requestDataChannel s \<longrightarrow>
             step srt time_Parse s (s\<lparr>requestDataChannel := requestDataChannel s - 1\<rparr>)
             \<and> open_requests (s\<lparr>requestDataChannel := requestDataChannel s - 1\<rparr>)
                 < open_requests s"
    using drained_monitor[OF assms] step.dm_request_none[of s srt time_Parse]
    by (auto simp: open_requests_def)
  have a4: "noMoreData s \<and> data s = [] \<longrightarrow> \<not> responseClosed s \<longrightarrow>
             (\<forall>s'. step srt time_Parse s s' \<longrightarrow>
                responseClosed s' \<or> open_requests s' \<le> open_requests s)"
    using step_open_requests[OF assms] by blast
  have a3: "noMoreData s \<and> data s = [] \<longrightarrow> \<not> responseClosed s \<and> requestDataChannel s = 0 \<longrightarrow>
             step srt time_Parse s (s\<lparr>dm_pc := DMReturned, responseClosed := True\<rparr>)"
    using drained_monitor[OF assms] step.dm_default_close[of s srt time_Parse] by blast
  have b1: "responseClosed s \<longrightarrow> (\<forall>s'. step srt time_Parse s s' \<longrightarrow> responseClosed s')"
    using step_closed by blast
  have b2: "responseClosed s \<longrightarrow> (\<forall>i < length (workers s).
             (workers s ! i = WRequest \<longrightarrow>
                step srt time_Parse s
                  (s\<lparr>requestDataChannel := requestDataChannel s + 1,
                     workers := (workers s)[i := WRecv]\<rparr>)))"
    using request_room[OF assms] step.worker_request[of _ s srt time_Parse] by blast
  have b3: "responseClosed s \<longrightarrow> (\<forall>i < length (workers s).
             (workers s ! i = WRecv \<longrightarrow>
                  step srt time_Parse s (s\<lparr>workers := (workers s)[i := WStatus]\<rparr>)
                  \<and> (\<forall>s'. step srt time_Parse s s' \<longrightarrow>
                        workers s' ! i = WRecv \<or> workers s' ! i = WStatus)))"
    using step.worker_recv_closed[of _ s srt time_Parse] waiting_worker_stays[of srt time_Parse s] d
    by blast
  have c: "\<forall>i < length (workers s).
           workers s ! i = WStatus \<or> workers s ! i = WExit \<longrightarrow> responseClosed s"
    using inv_told[OF assms] by blast
  have e: "responseClosed s \<longrightarrow>
           noMoreData s \<and> data s = [] \<and> pending (main_pc s) = []
           \<and> mset (map snd (delivered s)) = mset inputData"
    using d inv_conservation[OF assms] by auto
  from a1 a2 a3 a4 b1 b2 b3 c e show ?thesis by blast
qed

theorem no_more_data_after_closeInput_witness:
  "noMoreData scenario_drained \<and> data scenario_drained = []
   \<and> \<not> responseClosed scenario_drained \<and> requestDataChannel scenario_drained = 1
   \<and> step insertion_sort scenario_Parse scenario_drained scenario_idle
   \<and> open_requests scenario_idle < open_requests scenario_drained
   \<and> step insertion_sort scenario_Parse scenario_idle scenario_closed
   \<and> responseClosed scenario_closed \<and> workers scenario_closed ! 0 = WRecv
   \<and> step insertion_sort scenario_Parse scenario_closed scenario_told
   \<and> mset (map snd (delivered scenario_closed)) = mset [scenario_record]
   \<and> responseClosed scenario_closed_early \<and> workers scenario_closed_early ! 0 = WRequest
   \<and> step insertion_sort scenario_Parse scenario_closed_early
        (scenario_closed_early\<lparr>requestDataChannel := 1, workers := [WRecv]\<rparr>)
   \<and> workers scenario_told ! 0 = WStatus \<and> responseClosed scenario_told"
  using no_more_data_after_closeInput[OF scenario_reachable(3)]
    no_more_data_after_closeInput[OF scenario_reachable(7)]
    no_more_data_after_closeInput[OF scenario_reachable(4)]
    no_more_data_after_closeInput[OF scenario_reachable(9)]
    no_more_data_after_closeInput[OF scenario_reachable(8)]
  by (simp add: scenario_defs)

text \<open>
  C4. The counter of the result monitor starts at the worker count and is that count
  less the number of workers that have signalled and returned, so it goes down by one
  with each signal and never below zero; a worker that signals is never blocked, the
  monitor is still in its loop. The final collection has been published only
  if the counter is zero; after that no step publishes again or changes what was
  published; a step that publishes is taken with the counter at zero and hands over the
  collection as it is held; and with the counter at zero and the main goroutine waiting,
  the publication is possible.
\<close>

theorem counter_and_publication:
  assumes "reachable srt time_Parse inputData n s"
  shows
    "workerCount s = n - int (length (filter (\<lambda>w. w = WExit) (workers s)))
     \<and> 0 \<le> workerCount s
     \<and> (rm_returned s \<longrightarrow> workerCount s = 0 \<and> main_pc s = MFinal (rm_data s))
     \<and> (\<not> rm_returned s \<longrightarrow> (\<forall>d. main_pc s \<noteq> MFinal d))
     \<and> (\<forall>s'. step srt time_Parse s s' \<longrightarrow>
           (workerCount s' = workerCount s
            \<or> (workerCount s' = workerCount s - 1
                \<and> (\<exists>i < length (workers s).
                      workers s ! i = WStatus \<and> workers s' = (workers s)[i := WExit])))
           \<and> (rm_returned s \<longrightarrow>
              rm_returned s' \<and> main_pc s' = main_pc s \<and> rm_data s' = rm_data s)
           \<and> (\<not> rm_returned s \<and> rm_returned s' \<longrightarrow>
                workerCount s = 0 \<and> main_pc s = MRecvFinal \<and> main_pc s' = MFinal (rm_data s)))
     \<and> (i < length (workers s) \<and> workers s ! i = WStatus \<longrightarrow>
           step srt time_Parse s
             (s\<lparr>workerCount := workerCount s - 1, workers := (workers s)[i := WExit]\<rparr>))
     \<and> (workerCount s = 0 \<and> \<not> rm_returned s \<and> main_pc s = MRecvFinal \<longrightarrow>
           step srt time_Parse s (s\<lparr>main_pc := MFinal (rm_data s), rm_returned := True\<rparr>))"
proof -
  note c = inv_counter[OF assms] and f = inv_final[OF assms]
  have 7: "i < length (workers s) \<and> workers s ! i = WStatus \<longrightarrow>
           step srt time_Parse s
             (s\<lparr>workerCount := workerCount s - 1, workers := (workers s)[i := WExit]\<rparr>)"
    using monitor_in_loop[OF assms, of i] step.rm_status[of i s srt time_Parse] by auto
  have 1: "workerCount s = n - int (length (filter (\<lambda>w. w = WExit) (workers s)))"
    using c by simp
  have 2: "0 \<le> workerCount s" using c by simp
  have 3: "rm_returned s \<longrightarrow> workerCount s = 0 \<and> main_pc s = MFinal (rm_data s)"
    using f by auto
  have 4: "\<not> rm_returned s \<longrightarrow> (\<forall>d. main_pc s \<noteq> MFinal d)" using f by auto
  have 5: "\<forall>s'. step srt time_Parse s s' \<longrightarrow>
           (workerCount s' = workerCount s
            \<or> (workerCount s' = workerCount s - 1
                \<and> (\<exists>i < length (workers s).
                      workers s ! i = WStatus \<and> workers s' = (workers s)[i := WExit])))
           \<and> (rm_returned s \<longrightarrow>
              rm_returned s' \<and> main_pc s' = main_pc s \<and> rm_data s' = rm_data s)
           \<and> (\<not> rm_returned s \<and> rm_returned s' \<longrightarrow>
                workerCount s = 0 \<and> main_pc s = MRecvFinal \<and> main_pc s' = MFinal (rm_data s))"
  proof (intro allI impI conjI)
    fix s' assume st: "step srt time_Parse s s'"
    from step_counter[OF st]
    show "workerCount s' = workerCount s
            \<or> (workerCount s' = workerCount s - 1
                \<and> (\<exists>i < length (workers s).
                      workers s ! i = WStatus \<and> workers s' = (workers s)[i := WExit]))" .
    show "rm_returned s'" "main_pc s' = main_pc s" "rm_data s' = rm_data s" if "rm_returned s"
      using step_returned[OF assms st that] by simp_all
    show "workerCount s = 0" "main_pc s = MRecvFinal" "main_pc s' = MFinal (rm_data s)"
      if "\<not> rm_returned s \<and> rm_returned s'"
      using step_publishes[OF st] that 2 by simp_all
  qed
  have 6: "workerCount s = 0 \<and> \<not> rm_returned s \<and> main_pc s = MRecvFinal \<longrightarrow>
           step srt time_Parse s (s\<lparr>main_pc := MFinal (rm_data s), rm_returned := True\<rparr>)"
    using step.rm_final[of s srt time_Parse] by simp
  from 1 2 3 4 5 6 7 show ?thesis by blast
qed

theorem counter_and_publication_witness:
  "workerCount scenario_told = 1 \<and> workers scenario_told ! 0 = WStatus
   \<and> step insertion_sort scenario_Parse scenario_told scenario_counted
   \<and> workerCount scenario_counted = 0 \<and> \<not> rm_returned scenario_counted
   \<and> main_pc scenario_counted = MRecvFinal
   \<and> length (filter (\<lambda>w. w = WExit) (workers scenario_counted)) = 1
   \<and> step insertion_sort scenario_Parse scenario_counted scenario_final
   \<and> rm_returned scenario_final \<and> main_pc scenario_final = MFinal (rm_data scenario_final)"
proof -
  have "step insertion_sort scenario_Parse scenario_told scenario_counted"
    using step.rm_status[of 0 scenario_told insertion_sort scenario_Parse]
    by (simp add: scenario_defs)
  with counter_and_publication[OF scenario_reachable(8), of 0]
    counter_and_publication[OF scenario_reachable(5), of 0]
    counter_and_publication[OF scenario_reachable(6), of 0]
  show ?thesis by (simp add: scenario_defs)
qed

text \<open>
  C5. When the lookup for a record returns an hour, the worker goes on to submit the
  computed record if that hour equals the requested hour, and goes back to its next
  request otherwise. The submission is never blocked: the result monitor is still in
  its loop and takes the record into its collection. Every computed record that exists in a run (held by a worker for
  submission, held by the result monitor, or published) has its sunset hour equal to its
  requested hour.
\<close>

theorem submit_iff_hours_equal:
  assumes "reachable srt time_Parse inputData n s" and "sort_Slice_contract srt"
  shows
    "(FindSunsetHour time_Parse resp = Inr sunsetHour \<longrightarrow>
        InitWorker_process time_Parse resp r =
          (if sunsetHour = Hour r
           then WSubmit \<lparr>Date = Date r, Lat = Lat r, Lng = Lng r, Hour = Hour r,
                  SunsetHour = sunsetHour\<rparr>
           else WRequest))
     \<and> (i < length (workers s) \<and> workers s ! i = WSubmit computed \<longrightarrow>
          step srt time_Parse s
            (s\<lparr>rm_data := InitResultMonitor_result srt (rm_data s) computed,
               workers := (workers s)[i := WRequest]\<rparr>))
     \<and> (\<forall>c. c \<in> set (rm_data s) \<or> WSubmit c \<in> set (workers s)
             \<or> (\<exists>d. main_pc s = MFinal d \<and> c \<in> set d) \<longrightarrow>
           SunsetHour c = Hour c)"
proof -
  have 3: "i < length (workers s) \<and> workers s ! i = WSubmit computed \<longrightarrow>
          step srt time_Parse s
            (s\<lparr>rm_data := InitResultMonitor_result srt (rm_data s) computed,
               workers := (workers s)[i := WRequest]\<rparr>)"
    using monitor_in_loop[OF assms(1), of i] step.rm_result[of i s computed srt time_Parse]
    by auto
  have 1: "FindSunsetHour time_Parse resp = Inr sunsetHour \<longrightarrow>
        InitWorker_process time_Parse resp r =
          (if sunsetHour = Hour r
           then WSubmit \<lparr>Date = Date r, Lat = Lat r, Lng = Lng r, Hour = Hour r,
                  SunsetHour = sunsetHour\<rparr>
           else WRequest)"
    by (simp add: InitWorker_process_def)
  have 2: "SunsetHour c = Hour c"
    if "c \<in> set (rm_data s) \<or> WSubmit c \<in> set (workers s)
          \<or> (\<exists>d. main_pc s = MFinal d \<and> c \<in> set d)" for c
  proof -
    from that inv_final[OF assms(1)]
    have "c \<in> set (rm_data s) \<or> WSubmit c \<in> set (workers s)" by auto
    from computed_in_matches[OF assms this] show ?thesis by (rule matches_equal_hours)
  qed
  from 1 2 3 show ?thesis by blast
qed

theorem submit_iff_hours_equal_witness:
  "FindSunsetHour scenario_Parse scenario_OK = Inr 19
   \<and> InitWorker_process scenario_Parse scenario_OK scenario_record = WSubmit scenario_match
   \<and> InitWorker_process scenario_Parse scenario_OK (scenario_record\<lparr>Hour := 20\<rparr>) = WRequest
   \<and> workers scenario_submit ! 0 = WSubmit scenario_match
   \<and> step insertion_sort scenario_Parse scenario_submit scenario_held
   \<and> scenario_match \<in> set (rm_data scenario_held)
   \<and> SunsetHour scenario_match = Hour scenario_match"
  using submit_iff_hours_equal[OF scenario_reachable(10) insertion_sort_contract,
      where resp = scenario_OK and sunsetHour = 19 and r = scenario_record and i = 0
        and computed = scenario_match]
    submit_iff_hours_equal[OF scenario_reachable(2) insertion_sort_contract,
      where resp = scenario_OK and sunsetHour = 19 and r = "scenario_record\<lparr>Hour := 20\<rparr>"
        and i = 0 and computed = scenario_match]
  by (simp add: scenario_defs)

text \<open>
  C6. \<^verbatim>\<open>FindSunsetHour\<close> returns an error when the request fails (network error or
  timeout), when the body does not decode, when the status is not OK and when the time
  does not parse. A worker whose lookup returns an error goes back to its next request:
  the step changes nothing but the place of that worker and the history of lookups, and
  adds no match; and the worker can send that next request at once. Every record that the result monitor holds or publishes comes from a
  lookup that returned the requested hour, and the collection is never longer than the
  number of lookups that succeeded.
\<close>

theorem lookup_failure_contained:
  assumes "reachable srt time_Parse inputData n s" and "sort_Slice_contract srt"
  shows
    "FindSunsetHour time_Parse GetFailed = Inl GetError
     \<and> FindSunsetHour time_Parse BodyUndecodable = Inl BodyDecodeError
     \<and> (Status result \<noteq> ''OK'' \<longrightarrow>
          FindSunsetHour time_Parse (Body result) = Inl (ApiStatusError (Status result)))
     \<and> (Status result = ''OK'' \<and> time_Parse (Sunset result) = Inl err \<longrightarrow>
          FindSunsetHour time_Parse (Body result) = Inl err)
     \<and> (i < length (workers s) \<and> workers s ! i = WLookup r
           \<and> FindSunsetHour time_Parse resp = Inl e \<longrightarrow>
         step srt time_Parse s
           (s\<lparr>workers := (workers s)[i := WRequest], lookups := lookups s @ [(r, Inl e)]\<rparr>)
         \<and> step srt time_Parse
             (s\<lparr>workers := (workers s)[i := WRequest], lookups := lookups s @ [(r, Inl e)]\<rparr>)
             (s\<lparr>workers := (workers s)[i := WRecv], lookups := lookups s @ [(r, Inl e)],
                requestDataChannel := requestDataChannel s + 1\<rparr>)
         \<and> matches (lookups s @ [(r, Inl e)]) = matches (lookups s))
     \<and> (\<forall>c. c \<in> set (rm_data s) \<or> (\<exists>d. main_pc s = MFinal d \<and> c \<in> set d) \<longrightarrow>
           (\<exists>r. (r, Inr (Hour r)) \<in> set (lookups s)
              \<and> c = \<lparr>Date = Date r, Lat = Lat r, Lng = Lng r, Hour = Hour r,
                      SunsetHour = Hour r\<rparr>))
     \<and> length (rm_data s) \<le> length (filter (\<lambda>x. \<not> isl (snd x)) (lookups s))"
proof -
  have 1: "FindSunsetHour time_Parse GetFailed = Inl GetError"
    and 2: "FindSunsetHour time_Parse BodyUndecodable = Inl BodyDecodeError"
    and 3: "Status result \<noteq> ''OK'' \<longrightarrow>
          FindSunsetHour time_Parse (Body result) = Inl (ApiStatusError (Status result))"
    and 4: "Status result = ''OK'' \<and> time_Parse (Sunset result) = Inl err \<longrightarrow>
          FindSunsetHour time_Parse (Body result) = Inl err"
    by (simp_all add: FindSunsetHour_def)
  have 5: "i < length (workers s) \<and> workers s ! i = WLookup r
           \<and> FindSunsetHour time_Parse resp = Inl e \<longrightarrow>
         step srt time_Parse s
           (s\<lparr>workers := (workers s)[i := WRequest], lookups := lookups s @ [(r, Inl e)]\<rparr>)
         \<and> step srt time_Parse
             (s\<lparr>workers := (workers s)[i := WRequest], lookups := lookups s @ [(r, Inl e)]\<rparr>)
             (s\<lparr>workers := (workers s)[i := WRecv], lookups := lookups s @ [(r, Inl e)],
                requestDataChannel := requestDataChannel s + 1\<rparr>)
         \<and> matches (lookups s @ [(r, Inl e)]) = matches (lookups s)"
    using failed_lookup_continues[OF assms(1), of i r resp e]
    by (auto simp: matches_append)
  have 6: "\<exists>r. (r, Inr (Hour r)) \<in> set (lookups s)
              \<and> c = \<lparr>Date = Date r, Lat = Lat r, Lng = Lng r, Hour = Hour r,
                      SunsetHour = Hour r\<rparr>"
    if "c \<in> set (rm_data s) \<or> (\<exists>d. main_pc s = MFinal d \<and> c \<in> set d)" for c
  proof -
    from that inv_final[OF assms(1)] have "c \<in> set (rm_data s)" by auto
    with computed_in_matches[OF assms, of c] show ?thesis by (intro matches_from_lookup) simp
  qed
  have "size (mset (rm_data s)) \<le> size (mset (matches (lookups s)))"
    using inv_matches[OF assms] by (metis size_union le_add1)
  with length_matches[of "lookups s"]
  have 7: "length (rm_data s) \<le> length (filter (\<lambda>x. \<not> isl (snd x)) (lookups s))" by simp
  from 1 2 3 4 5 6 7 show ?thesis by blast
qed

theorem lookup_failure_contained_witness:
  "workers scenario_lookup ! 0 = WLookup scenario_record
   \<and> FindSunsetHour scenario_Parse GetFailed = Inl GetError
   \<and> FindSunsetHour scenario_Parse BodyUndecodable = Inl BodyDecodeError
   \<and> FindSunsetHour scenario_Parse (Body \<lparr>Sunset = [], Status = ''INVALID_REQUEST''\<rparr>)
       = Inl (ApiStatusError ''INVALID_REQUEST'')
   \<and> FindSunsetHour scenario_Parse (Body \<lparr>Sunset = ''sunset'', Status = ''OK''\<rparr>)
       = Inl TimeParseError
   \<and> step insertion_sort scenario_Parse scenario_lookup
        (scenario_lookup\<lparr>workers := [WRequest], lookups := [(scenario_record, Inl GetError)]\<rparr>)
   \<and> step insertion_sort scenario_Parse
        (scenario_lookup\<lparr>workers := [WRequest], lookups := [(scenario_record, Inl GetError)]\<rparr>)
        (scenario_lookup\<lparr>workers := [WRecv], lookups := [(scenario_record, Inl GetError)],
           requestDataChannel := 1\<rparr>)
   \<and> matches [(scenario_record, Inl GetError)] = []
   \<and> length (rm_data scenario_final) \<le> 1"
  using lookup_failure_contained[OF scenario_reachable(1) insertion_sort_contract,
      where i = 0 and r = scenario_record and resp = GetFailed and e = GetError
        and result = "\<lparr>Sunset = [], Status = ''INVALID_REQUEST''\<rparr>" and err = TimeParseError]
    lookup_failure_contained[OF scenario_reachable(6) insertion_sort_contract,
      where i = 0 and r = scenario_record and resp = GetFailed and e = GetError
        and result = "\<lparr>Sunset = ''sunset'', Status = ''OK''\<rparr>" and err = TimeParseError]
  by (simp add: scenario_defs)




text \<open>
  C8. The report that \<^verbatim>\<open>writeOutputToFile\<close> writes for a collection is one formatted
  text per match, in the order of the collection, and then the count line with the
  length of the collection; the function fails only when the file cannot be created.
  When no date and no printed coordinate contains a line feed, the lines of the file are
  exactly the match lines \<open>Date: ... Lat: ... Lng: ... Guess Hour: ... Sunset Hour: ...\<close>,
  one per match, followed by the line \<open>Count: n\<close> with \<open>n\<close> the number of match lines.
\<close>

theorem report_lines:
  "(os_Create outputFilePath \<longrightarrow>
      writeOutputToFile os_Create fmt_2f outputFilePath computedData
        = Inr (concat (map (Fprintf_value fmt_2f) computedData)
                @ ''Count: '' @ fmt_d (int (length computedData)) @ ''\<newline>''))
   \<and> (\<not> os_Create outputFilePath \<longrightarrow>
      writeOutputToFile os_Create fmt_2f outputFilePath computedData = Inl CreateError)
   \<and> ((\<forall>v \<in> set computedData.
          CHR ''\<newline>'' \<notin> set (Date v) \<and> CHR ''\<newline>'' \<notin> set (fmt_2f (Lat v))
            \<and> CHR ''\<newline>'' \<notin> set (fmt_2f (Lng v))) \<longrightarrow>
        file_lines (concat (map (Fprintf_value fmt_2f) computedData)
                      @ ''Count: '' @ fmt_d (int (length computedData)) @ ''\<newline>'')
          = map (match_line fmt_2f) computedData
              @ [''Count: '' @ fmt_d (int (length computedData))])"
proof -
  have count_line:
    "lines_from [] (''Count: '' @ fmt_d (int (length computedData)) @ ''\<newline>'')
       = [''Count: '' @ fmt_d (int (length computedData))]"
    using lines_from_line[of "''Count: '' @ fmt_d (int (length computedData))" "[]" "[]"]
      fmt_d_no_newline[of "int (length computedData)"]
    by simp
  show ?thesis
    using count_line file_lines_values[of computedData fmt_2f] match_line_no_newline[of _ fmt_2f]
    by (auto simp: writeOutputToFile_def write_values_concat file_lines_def)
qed

theorem report_lines_witness:
  "writeOutputToFile (\<lambda>p. True) (\<lambda>x::real. if x = 10 then ''10.00'' else ''20.00'')
       ''./IFF1-5_BradauskasA_L1_rez.txt''
       [\<lparr>Date = ''2024-06-01'', Lat = 10, Lng = 20, Hour = 19, SunsetHour = 19\<rparr>]
     = Inr (''Date: 2024-06-01 Lat: 10.00 Lng: 20.00 Guess Hour: 19 Sunset Hour: 19\<newline>''
             @ ''Count: 1\<newline>'')
   \<and> file_lines (''Date: 2024-06-01 Lat: 10.00 Lng: 20.00 Guess Hour: 19 Sunset Hour: 19\<newline>''
                  @ ''Count: 1\<newline>'')
     = [''Date: 2024-06-01 Lat: 10.00 Lng: 20.00 Guess Hour: 19 Sunset Hour: 19'', ''Count: 1'']"
  using report_lines[of "\<lambda>p. True" "''./IFF1-5_BradauskasA_L1_rez.txt''"
      "\<lambda>x::real. if x = 10 then ''10.00'' else ''20.00''"
      "[\<lparr>Date = ''2024-06-01'', Lat = 10, Lng = 20, Hour = 19, SunsetHour = 19\<rparr>]"]
  by (simp add: Fprintf_value_def match_line_def fmt_d_def fmt_nat.simps digit_char_def)

text \<open>
  C9. In every state of a run the collection that the result monitor holds is sorted
  ascending by hour, and the result case (append, then sort the whole slice) gives a
  sorted collection with the new record added to the old ones.
\<close>

theorem collection_sorted_after_each_submit:
  assumes "reachable srt time_Parse inputData n s" and "sort_Slice_contract srt"
  shows
    "sorted (map Hour (rm_data s))
     \<and> sorted (map Hour (InitResultMonitor_result srt (rm_data s) resultData))
     \<and> mset (InitResultMonitor_result srt (rm_data s) resultData)
         = add_mset resultData (mset (rm_data s))"
  using inv_sorted[OF assms] assms(2)
  by (simp add: InitResultMonitor_result_def sort_Slice_contract_def)

theorem collection_sorted_after_each_submit_witness:
  "rm_data scenario_held = [scenario_match]
   \<and> sorted (map Hour (InitResultMonitor_result insertion_sort [scenario_match]
        scenario_other_match))
   \<and> mset (InitResultMonitor_result insertion_sort [scenario_match] scenario_other_match)
       = {#scenario_other_match, scenario_match#}"
  using collection_sorted_after_each_submit[OF scenario_reachable(2) insertion_sort_contract,
      of scenario_other_match]
  by (simp add: scenario_defs)



end
